theory Spec2Isabelle
  imports
    Complex_Main
    "HOL-Library.Char_ord"
    "HOL-Library.List_Lexorder"
    "HOL-Library.Multiset"
    "HOL-Library.AList"
begin

section \<open>The ledger store of server.ts\<close>

text \<open>
  The server keeps one SQLite table, \<open>transactions\<close>, and answers four requests over it.
  The model below is a state-passing embedding of the four handlers. What SQLite itself
  does for the statements the handlers issue (the \<open>CHECK\<close> constraint, \<open>AUTOINCREMENT\<close>,
  \<open>ORDER BY\<close>, \<open>SUM\<close>) is written out next to the handler that relies on it.

  Scope of the model:
  \<^item> a request body carries, for each field, a value of the type that the interface
    \<open>Transaction\<close> declares for it (a number for \<open>amount\<close>, a string for the others), or
    nothing; \<open>None\<close> stands for an absent, \<open>undefined\<close> or \<open>null\<close> field. The handler
    itself tests truthiness only, so a body with other JSON values (the text \<open>"0"\<close> as
    amount, say) reaches the same \<open>INSERT\<close>; the reachable stores below account for the
    rows that such a body can store;
  \<^item> the column \<open>amount REAL\<close> holds IEEE doubles, and an amount is the real number that
    a finite double denotes. The operations on doubles that round or overflow are not
    computed here but taken as parameters: SQLite's \<open>SUM\<close> and JavaScript's \<open>+\<close>;
  \<^item> strings are byte strings (UTF-8), compared bytewise as SQLite's default collation
    does;
  \<^item> the storage layer does not fail: the \<open>catch\<close> branches of \<open>list\<close>, \<open>delete\<close> and
    \<open>stats\<close> are not reached, and the 63-bit limit of row ids is not modelled;
  \<^item> the clock is an input: \<open>CURRENT_TIMESTAMP\<close> is the argument \<open>now\<close> of an insertion.
\<close>

subsection \<open>Rows and the table\<close>

text \<open>The columns of \<open>CREATE TABLE transactions\<close> (the interface \<open>Transaction\<close>).\<close>

record transaction =
  txn_id :: int
  amount :: real
  type :: string
  category :: string
  description :: "string option"
  date :: string
  created_at :: string

text \<open>
  The table: its rows in rowid order, and the counter that \<open>AUTOINCREMENT\<close> keeps in
  \<open>sqlite_sequence\<close> (the largest rowid ever assigned).
\<close>

record store =
  rows :: "transaction list"
  seq :: int

definition empty_store :: store where
  "empty_store = \<lparr>rows = [], seq = 0\<rparr>"

subsection \<open>POST /api/transactions\<close>

text \<open>The destructured request body.\<close>

record body =
  req_amount :: "real option"
  req_type :: "string option"
  req_category :: "string option"
  req_description :: "string option"
  req_date :: "string option"

datatype error = Status400 | Status500

text \<open>
  JavaScript's \<open>!x\<close> on the values that the body type carries: nothing is falsy, a
  number is falsy when it is 0, a string when it is empty.
\<close>

definition falsy_number :: "real option \<Rightarrow> bool" where
  "falsy_number x = (case x of None \<Rightarrow> True | Some a \<Rightarrow> a = 0)"

definition falsy_string :: "string option \<Rightarrow> bool" where
  "falsy_string x = (case x of None \<Rightarrow> True | Some s \<Rightarrow> s = [])"

text \<open>\<open>CHECK(type IN ('income', 'expense'))\<close>\<close>

definition check_type :: "string \<Rightarrow> bool" where
  "check_type t = (t = ''income'' \<or> t = ''expense'')"

text \<open>
  The rowid that \<open>AUTOINCREMENT\<close> chooses: one more than the largest of the counter and
  the rowids in the table.
\<close>

definition next_id :: "store \<Rightarrow> int" where
  "next_id s = fold max (map txn_id (rows s)) (seq s) + 1"

text \<open>
  The \<open>INSERT\<close> statement. A violated constraint aborts the statement and changes
  nothing; \<open>description\<close> has no constraint and may be \<open>NULL\<close>.
\<close>

definition insert_transaction ::
  "string \<Rightarrow> real \<Rightarrow> string \<Rightarrow> string \<Rightarrow> string option \<Rightarrow> string \<Rightarrow> store \<Rightarrow> (int \<times> store) option" where
  "insert_transaction now a t c d dt s =
     (if \<not> check_type t then None
      else let i = next_id s in
        Some (i, \<lparr>rows = rows s @
                     [\<lparr>txn_id = i, amount = a, type = t, category = c,
                       description = d, date = dt, created_at = now\<rparr>],
                  seq = i\<rparr>))"

definition post_transaction :: "string \<Rightarrow> body \<Rightarrow> store \<Rightarrow> (error + int) \<times> store" where
  "post_transaction now b s =
     (if falsy_number (req_amount b) \<or> falsy_string (req_type b)
         \<or> falsy_string (req_category b) \<or> falsy_string (req_date b)
      then (Inl Status400, s)
      else case insert_transaction now (the (req_amount b)) (the (req_type b))
                  (the (req_category b)) (req_description b) (the (req_date b)) s of
             None \<Rightarrow> (Inl Status500, s)
           | Some (i, s') \<Rightarrow> (Inr i, s'))"

subsection \<open>GET /api/transactions\<close>

text \<open>
  \<open>ORDER BY date DESC, created_at DESC\<close>: \<open>a\<close> may stand before \<open>b\<close>. Both columns hold
  text. Rows equal in both keys keep their rowid order here; SQL leaves their order open.
\<close>

definition order_by :: "transaction \<Rightarrow> transaction \<Rightarrow> bool" where
  "order_by a b = (date a > date b \<or> (date a = date b \<and> created_at a \<ge> created_at b))"

text \<open>
  A stable sort by insertion, shared by \<open>ORDER BY\<close> and by \<open>Array.prototype.sort\<close> below:
  \<open>ahead a b\<close> says that \<open>a\<close> may stand before \<open>b\<close>.
\<close>

fun insert_by :: "('a \<Rightarrow> 'a \<Rightarrow> bool) \<Rightarrow> 'a \<Rightarrow> 'a list \<Rightarrow> 'a list" where
  "insert_by ahead r [] = [r]"
| "insert_by ahead r (x # xs) =
     (if ahead r x then r # x # xs else x # insert_by ahead r xs)"

definition sort_by :: "('a \<Rightarrow> 'a \<Rightarrow> bool) \<Rightarrow> 'a list \<Rightarrow> 'a list" where
  "sort_by ahead xs = foldr (insert_by ahead) xs []"

definition list_transactions :: "store \<Rightarrow> transaction list" where
  "list_transactions s = sort_by order_by (rows s)"

subsection \<open>DELETE /api/transactions/:id\<close>

text \<open>
  \<open>req.params.id\<close> is the text of the path segment, and it is bound as text. The column
  \<open>id\<close> is an integer, so SQLite converts the text to a number before it compares. That
  conversion is SQLite's and is a parameter here: \<open>num p\<close> is the integer that the text
  \<open>p\<close> denotes, \<open>None\<close> when it denotes no integer (then no row matches). The handler
  answers \<open>{success: true}\<close> whatever the statement removed.
\<close>

definition delete_transaction ::
  "(string \<Rightarrow> int option) \<Rightarrow> string \<Rightarrow> store \<Rightarrow> (error + bool) \<times> store" where
  "delete_transaction num p s =
     (Inr True, s\<lparr>rows := filter (\<lambda>r. num p \<noteq> Some (txn_id r)) (rows s)\<rparr>)"

subsection \<open>GET /api/stats\<close>

text \<open>
  SQL's \<open>SUM\<close> as the answer carries it. Over no row it is \<open>NULL\<close>. Over a non-empty
  column it is SQLite's accumulation of the doubles, the parameter \<open>sqlite_sum\<close>: \<open>sqlite_sum xs\<close> is the
  total when that is finite and \<open>None\<close> when it is not, since \<open>res.json\<close> writes a number
  that is not finite as \<open>null\<close>.
\<close>

definition sql_sum :: "(real list \<Rightarrow> real option) \<Rightarrow> real list \<Rightarrow> real option" where
  "sql_sum sqlite_sum xs = (if xs = [] then None else sqlite_sum xs)"

record stats =
  total_income :: "real option"
  total_expense :: "real option"

definition get_stats :: "(real list \<Rightarrow> real option) \<Rightarrow> store \<Rightarrow> stats" where
  "get_stats sqlite_sum s =
     \<lparr>total_income =
        sql_sum sqlite_sum (map (\<lambda>r. if type r = ''income'' then amount r else 0) (rows s)),
      total_expense =
        sql_sum sqlite_sum (map (\<lambda>r. if type r = ''expense'' then amount r else 0) (rows s))\<rparr>"


section \<open>The derived views of App.tsx\<close>

text \<open>
  The page computes the category breakdown and the daily groups from the array
  \<open>transactions\<close>, which is the answer of \<open>GET /api/transactions\<close>. Both are built in an
  object literal \<open>{}\<close> used as a map. Such an object has its own properties, kept in
  insertion order, and inherits the members of \<open>Object.prototype\<close>: reading a key that is
  not an own property finds the inherited member of that name, if there is one.
\<close>

definition object_prototype_keys :: "string list" where
  "object_prototype_keys =
     [''constructor'', ''__defineGetter__'', ''__defineSetter__'', ''hasOwnProperty'',
      ''__lookupGetter__'', ''__lookupSetter__'', ''isPrototypeOf'',
      ''propertyIsEnumerable'', ''toString'', ''valueOf'', ''__proto__'',
      ''toLocaleString'']"

subsection \<open>categoryData\<close>

text \<open>
  JavaScript's \<open>+\<close> on two finite numbers is the parameter \<open>js_plus\<close>: \<open>js_plus x y\<close> is the
  rounded sum when that is finite, and \<open>None\<close> when the sum overflows to an infinity.

  The values that \<open>acc\<close> comes to hold. \<open>(acc[k] || 0) + t.amount\<close> is a number when
  \<open>acc[k]\<close> is a number or undefined; \<open>Infinity\<close> stands for a sum that has overflowed,
  which stays so under further additions. When \<open>acc[k]\<close> is an inherited member the sum
  is a string concatenation: \<open>Text m as\<close> stands for the text of the member \<open>m\<close> of
  \<open>Object.prototype\<close> followed by the amounts \<open>as\<close> written out; it is never empty.
\<close>

datatype jsvalue = Number real | Infinity | Text string "real list"

definition add_number :: "(real \<Rightarrow> real \<Rightarrow> real option) \<Rightarrow> real \<Rightarrow> real \<Rightarrow> jsvalue" where
  "add_number js_plus x y = (case js_plus x y of Some z \<Rightarrow> Number z | None \<Rightarrow> Infinity)"

text \<open>
  One step of the \<open>reduce\<close>. Assigning to \<open>acc["__proto__"]\<close> calls the inherited setter,
  which ignores a value that is not an object; assigning to any other key makes or
  updates an own property.
\<close>

definition category_step ::
  "(real \<Rightarrow> real \<Rightarrow> real option) \<Rightarrow> (string \<times> jsvalue) list \<Rightarrow> transaction \<Rightarrow>
     (string \<times> jsvalue) list" where
  "category_step js_plus acc t =
     (let k = category t in
      case map_of acc k of
        Some (Number n) \<Rightarrow>
          AList.update k (add_number js_plus (if n = 0 then 0 else n) (amount t)) acc
      | Some Infinity \<Rightarrow> AList.update k Infinity acc
      | Some (Text m as) \<Rightarrow> AList.update k (Text m (as @ [amount t])) acc
      | None \<Rightarrow>
          if k \<in> set object_prototype_keys
          then (if k = ''__proto__'' then acc else AList.update k (Text k [amount t]) acc)
          else AList.update k (add_number js_plus 0 (amount t)) acc)"

text \<open>
  \<open>Object.entries\<close> of the reduced object, as name and value pairs. The pairs are listed
  in insertion order; JavaScript lists keys that are array indices first, which no
  statement below depends on.
\<close>

definition categoryData ::
  "(real \<Rightarrow> real \<Rightarrow> real option) \<Rightarrow> transaction list \<Rightarrow> (string \<times> jsvalue) list" where
  "categoryData js_plus transactions =
     fold (\<lambda>t acc. category_step js_plus acc t)
       (filter (\<lambda>t. type t = ''expense'') transactions) []"

text \<open>The values of a breakdown that are finite numbers.\<close>

fun numbers :: "jsvalue list \<Rightarrow> real list" where
  "numbers [] = []"
| "numbers (Number n # vs) = n # numbers vs"
| "numbers (Infinity # vs) = numbers vs"
| "numbers (Text m as # vs) = numbers vs"

subsection \<open>grouped\<close>










section \<open>Notions of the specification\<close>

subsection \<open>Calendar dates\<close>

text \<open>A valid calendar date written \<open>YYYY-MM-DD\<close>, as the specification asks of \<open>date\<close>.\<close>

definition is_digit :: "char \<Rightarrow> bool" where
  "is_digit c = (CHR ''0'' \<le> c \<and> c \<le> CHR ''9'')"

definition number_of :: "string \<Rightarrow> nat" where
  "number_of ds = foldl (\<lambda>n c. 10 * n + (of_char c - 48)) 0 ds"

definition leap_year :: "nat \<Rightarrow> bool" where
  "leap_year y = (y mod 4 = 0 \<and> (y mod 100 \<noteq> 0 \<or> y mod 400 = 0))"

definition days_in_month :: "nat \<Rightarrow> nat \<Rightarrow> nat" where
  "days_in_month y m =
     (if m = 2 then (if leap_year y then 29 else 28)
      else if m = 4 \<or> m = 6 \<or> m = 9 \<or> m = 11 then 30 else 31)"

definition valid_calendar_date :: "string \<Rightarrow> bool" where
  "valid_calendar_date s =
     (length s = 10 \<and> s ! 4 = CHR ''-'' \<and> s ! 7 = CHR ''-'' \<and>
      list_all is_digit (take 4 s) \<and> list_all is_digit (take 2 (drop 5 s)) \<and>
      list_all is_digit (drop 8 s) \<and>
      1 \<le> number_of (take 2 (drop 5 s)) \<and> number_of (take 2 (drop 5 s)) \<le> 12 \<and>
      1 \<le> number_of (drop 8 s) \<and>
      number_of (drop 8 s) \<le> days_in_month (number_of (take 4 s)) (number_of (take 2 (drop 5 s))))"




subsection \<open>Exact sums\<close>

text \<open>
  Doubles hold every whole number up to \<open>2 ^ 53\<close> in absolute value, and their addition
  does not round as long as the sum stays in that range. The two predicates say this of
  the parameters; \<open>whole_amounts\<close> says that the amounts of some records are whole
  numbers whose absolute values add up to no more than \<open>2 ^ 53\<close>, so that no sum of some
  of them rounds.
\<close>

definition exact_plus :: "(real \<Rightarrow> real \<Rightarrow> real option) \<Rightarrow> bool" where
  "exact_plus js_plus =
     (\<forall>x y. x \<in> \<int> \<and> y \<in> \<int> \<and> \<bar>x\<bar> \<le> 2 ^ 53 \<and> \<bar>y\<bar> \<le> 2 ^ 53 \<and> \<bar>x + y\<bar> \<le> 2 ^ 53 \<longrightarrow>
        js_plus x y = Some (x + y))"

definition exact_sum :: "(real list \<Rightarrow> real option) \<Rightarrow> bool" where
  "exact_sum sqlite_sum =
     (\<forall>xs. xs \<noteq> [] \<and> (\<forall>x\<in>set xs. x \<in> \<int>) \<and> sum_list (map abs xs) \<le> 2 ^ 53 \<longrightarrow>
        sqlite_sum xs = Some (sum_list xs))"

definition whole_amounts :: "transaction list \<Rightarrow> bool" where
  "whole_amounts ts =
     ((\<forall>t\<in>set ts. amount t \<in> \<int>) \<and> sum_list (map (\<lambda>t. \<bar>amount t\<bar>) ts) \<le> 2 ^ 53)"

text \<open>
  Instances for the examples, where every sum is a whole number far below \<open>2 ^ 53\<close>: on
  those, the addition and the accumulation of doubles give what these two give.
\<close>

definition plus_exactly :: "real \<Rightarrow> real \<Rightarrow> real option" where
  "plus_exactly x y = Some (x + y)"

definition sum_exactly :: "real list \<Rightarrow> real option" where
  "sum_exactly xs = Some (sum_list xs)"

text \<open>The integers written in plain decimal, as the page writes an id into the path.\<close>

definition decimal :: "string \<Rightarrow> int option" where
  "decimal p = (if p \<noteq> [] \<and> list_all is_digit p then Some (int (number_of p)) else None)"

subsection \<open>Requests that the specification rejects\<close>

text \<open>
  The requests of C1: \<open>amount \<le> 0\<close>, or \<open>category\<close>, \<open>date\<close> or \<open>type\<close> missing, or a
  \<open>type\<close> other than income and expense, or a malformed date.
\<close>

definition spec_rejects :: "body \<Rightarrow> bool" where
  "spec_rejects b =
     ((case req_amount b of None \<Rightarrow> False | Some a \<Rightarrow> a \<le> 0) \<or>
      req_category b = None \<or> req_date b = None \<or> req_type b = None \<or>
      (case req_type b of None \<Rightarrow> False | Some t \<Rightarrow> \<not> check_type t) \<or>
      (case req_date b of None \<Rightarrow> False | Some d \<Rightarrow> \<not> valid_calendar_date d))"

subsection \<open>Reachable stores and record invariants\<close>

text \<open>
  The stores that requests lead to. A request whose fields are of the declared types is
  a step \<open>posted\<close>. A request with other JSON values passes the handler's test when its
  four fields are truthy and then runs the same \<open>INSERT\<close>, which stores whatever the
  columns take of it, provided that the constraints of the table hold: step \<open>inserted\<close>
  covers every row that the statement can store with a number as amount (the text \<open>"0"\<close>
  is stored as the number 0).
\<close>

inductive reachable :: "store \<Rightarrow> bool" where
  initial: "reachable empty_store"
| posted: "reachable s \<Longrightarrow> reachable (snd (post_transaction now b s))"
| inserted: "reachable s \<Longrightarrow> insert_transaction now a t c d dt s = Some (i, s') \<Longrightarrow>
    reachable s'"
| deleted: "reachable s \<Longrightarrow> reachable (snd (delete_transaction num p s))"

text \<open>The invariants of C8 as the specification states them.\<close>

definition spec_invariant :: "store \<Rightarrow> bool" where
  "spec_invariant s =
     (distinct (map txn_id (rows s)) \<and>
      (\<forall>r\<in>set (rows s). amount r > 0 \<and> check_type (type r) \<and> valid_calendar_date (date r)))"

text \<open>
  The invariants that the table keeps: ids are positive, grow along the rows in the
  order of creation and never exceed the counter, and the type is one of the two.
\<close>

definition record_invariant :: "store \<Rightarrow> bool" where
  "record_invariant s =
     (sorted_wrt (<) (map txn_id (rows s)) \<and> 0 \<le> seq s \<and>
      (\<forall>r\<in>set (rows s). 0 < txn_id r \<and> txn_id r \<le> seq s \<and> check_type (type r)))"

subsection \<open>Example requests and stores\<close>

definition lunch :: body where
  "lunch = \<lparr>req_amount = Some 50, req_type = Some ''expense'', req_category = Some ''food'',
            req_description = Some ''lunch'', req_date = Some ''2024-01-01''\<rparr>"

definition salary :: body where
  "salary = \<lparr>req_amount = Some 1000, req_type = Some ''income'',
             req_category = Some ''salary'', req_description = None,
             req_date = Some ''2024-01-02''\<rparr>"

definition refund :: body where
  "refund = \<lparr>req_amount = Some (- 5), req_type = Some ''expense'',
             req_category = Some ''food'', req_description = None,
             req_date = Some ''2024-01-03''\<rparr>"

definition stray :: body where
  "stray = \<lparr>req_amount = Some 7, req_type = Some ''expense'',
            req_category = Some ''__proto__'', req_description = None,
            req_date = Some ''constructor''\<rparr>"

definition store1 :: store where
  "store1 = snd (post_transaction ''2024-01-01 08:00:00'' lunch empty_store)"

definition store2 :: store where
  "store2 = snd (post_transaction ''2024-01-02 09:00:00'' salary store1)"

definition store3 :: store where
  "store3 = snd (post_transaction ''2024-01-03 10:00:00'' refund store2)"

definition store4 :: store where
  "store4 = snd (post_transaction ''2024-01-04 11:00:00'' stray empty_store)"


text \<open>The same request twice within one second.\<close>

definition store6 :: store where
  "store6 = snd (post_transaction ''2024-01-01 08:00:00'' lunch store1)"



text \<open>The row that a request with the text \<open>"0"\<close> as amount stores.\<close>

definition store8 :: store where
  "store8 =
     \<lparr>rows = [\<lparr>txn_id = 1, amount = 0, type = ''expense'', category = ''food'',
               description = None, date = ''2024-01-01'',
               created_at = ''2024-01-06 09:00:00''\<rparr>],
      seq = 1\<rparr>"

section \<open>The example stores\<close>

lemma store1_eq:
  "store1 =
     \<lparr>rows = [\<lparr>txn_id = 1, amount = 50, type = ''expense'', category = ''food'',
               description = Some ''lunch'', date = ''2024-01-01'',
               created_at = ''2024-01-01 08:00:00''\<rparr>],
      seq = 1\<rparr>"
  by (simp add: store1_def post_transaction_def lunch_def falsy_number_def falsy_string_def
      insert_transaction_def check_type_def next_id_def empty_store_def)

lemma store2_eq:
  "store2 =
     \<lparr>rows = [\<lparr>txn_id = 1, amount = 50, type = ''expense'', category = ''food'',
               description = Some ''lunch'', date = ''2024-01-01'',
               created_at = ''2024-01-01 08:00:00''\<rparr>,
             \<lparr>txn_id = 2, amount = 1000, type = ''income'', category = ''salary'',
               description = None, date = ''2024-01-02'',
               created_at = ''2024-01-02 09:00:00''\<rparr>],
      seq = 2\<rparr>"
  by (simp add: store2_def store1_eq post_transaction_def salary_def falsy_number_def
      falsy_string_def insert_transaction_def check_type_def next_id_def)

lemma store3_eq:
  "store3 =
     \<lparr>rows = [\<lparr>txn_id = 1, amount = 50, type = ''expense'', category = ''food'',
               description = Some ''lunch'', date = ''2024-01-01'',
               created_at = ''2024-01-01 08:00:00''\<rparr>,
             \<lparr>txn_id = 2, amount = 1000, type = ''income'', category = ''salary'',
               description = None, date = ''2024-01-02'',
               created_at = ''2024-01-02 09:00:00''\<rparr>,
             \<lparr>txn_id = 3, amount = - 5, type = ''expense'', category = ''food'',
               description = None, date = ''2024-01-03'',
               created_at = ''2024-01-03 10:00:00''\<rparr>],
      seq = 3\<rparr>"
  by (simp add: store3_def store2_eq post_transaction_def refund_def falsy_number_def
      falsy_string_def insert_transaction_def check_type_def next_id_def)

lemma store4_eq:
  "store4 =
     \<lparr>rows = [\<lparr>txn_id = 1, amount = 7, type = ''expense'', category = ''__proto__'',
               description = None, date = ''constructor'',
               created_at = ''2024-01-04 11:00:00''\<rparr>],
      seq = 1\<rparr>"
  by (simp add: store4_def post_transaction_def stray_def falsy_number_def falsy_string_def
      insert_transaction_def check_type_def next_id_def empty_store_def)

lemma store6_eq:
  "store6 =
     \<lparr>rows = [\<lparr>txn_id = 1, amount = 50, type = ''expense'', category = ''food'',
               description = Some ''lunch'', date = ''2024-01-01'',
               created_at = ''2024-01-01 08:00:00''\<rparr>,
             \<lparr>txn_id = 2, amount = 50, type = ''expense'', category = ''food'',
               description = Some ''lunch'', date = ''2024-01-01'',
               created_at = ''2024-01-01 08:00:00''\<rparr>],
      seq = 2\<rparr>"
  by (simp add: store6_def store1_eq post_transaction_def lunch_def falsy_number_def
      falsy_string_def insert_transaction_def check_type_def next_id_def)


section \<open>Totals\<close>

lemma sum_list_case_filter:
  "sum_list (map (\<lambda>r. if P r then f r else (0::real)) xs) = sum_list (map f (filter P xs))"
  by (induction xs) auto

lemma exact_sum_case:
  assumes "exact_sum sqlite_sum" "whole_amounts rs" "rs \<noteq> []"
  shows "sqlite_sum (map (\<lambda>r. if P r then amount r else 0) rs) =
    Some (sum_list (map amount (filter P rs)))"
proof -
  let ?xs = "map (\<lambda>r. if P r then amount r else 0) rs"
  have "?xs \<noteq> []"
    using assms(3) by simp
  moreover have "\<forall>x\<in>set ?xs. x \<in> \<int>"
    using assms(2) by (auto simp: whole_amounts_def)
  moreover have "sum_list (map abs ?xs) \<le> 2 ^ 53"
  proof -
    have "sum_list (map abs ?xs) = sum_list (map (\<lambda>r. \<bar>if P r then amount r else 0\<bar>) rs)"
      by (simp add: comp_def)
    also have "\<dots> \<le> sum_list (map (\<lambda>r. \<bar>amount r\<bar>) rs)"
      by (rule sum_list_mono) simp
    also have "\<dots> \<le> 2 ^ 53"
      using assms(2) by (simp add: whole_amounts_def)
    finally show ?thesis .
  qed
  ultimately have "sqlite_sum ?xs = Some (sum_list ?xs)"
    using assms(1) unfolding exact_sum_def by blast
  then show ?thesis
    by (simp add: sum_list_case_filter)
qed

text \<open>
  C2, as the code has it. Take a store with at least one record in which the amounts are
  whole numbers whose absolute values add up to no more than \<open>2 ^ 53\<close>, so that the
  accumulation of doubles does not round. Then \<open>total_income\<close> is the sum of \<open>amount\<close>
  over the stored records of type income and \<open>total_expense\<close> the sum over those of type
  expense. On the empty store both are \<open>null\<close> (SQL's \<open>SUM\<close> over no rows), not the number
  0.
\<close>

theorem stats_totals:
  "(rows s \<noteq> [] \<and> exact_sum sqlite_sum \<and> whole_amounts (rows s) \<longrightarrow>
      total_income (get_stats sqlite_sum s) =
        Some (sum_list (map amount (filter (\<lambda>r. type r = ''income'') (rows s)))) \<and>
      total_expense (get_stats sqlite_sum s) =
        Some (sum_list (map amount (filter (\<lambda>r. type r = ''expense'') (rows s))))) \<and>
   (rows s = [] \<longrightarrow>
      total_income (get_stats sqlite_sum s) = None \<and>
      total_expense (get_stats sqlite_sum s) = None)"
proof -
  have "sqlite_sum (map (\<lambda>r. if P r then amount r else 0) (rows s)) =
      Some (sum_list (map amount (filter P (rows s))))"
    if "rows s \<noteq> []" "exact_sum sqlite_sum" "whole_amounts (rows s)" for P
    using that(2,3,1) by (rule exact_sum_case)
  then show ?thesis
    by (simp add: get_stats_def sql_sum_def)
qed

lemma exact_sum_exactly: "exact_sum sum_exactly"
  by (simp add: exact_sum_def sum_exactly_def)

lemma exact_plus_exactly: "exact_plus plus_exactly"
  by (simp add: exact_plus_def plus_exactly_def)

lemma whole_store2: "whole_amounts (rows store2)"
  by (simp add: whole_amounts_def store2_eq)

theorem stats_totals_witness:
  "rows store2 \<noteq> [] \<and> total_income (get_stats sum_exactly store2) = Some 1000 \<and>
   total_expense (get_stats sum_exactly store2) = Some 50 \<and>
   rows empty_store = [] \<and> total_income (get_stats sum_exactly empty_store) = None \<and>
   total_expense (get_stats sum_exactly empty_store) = None"
  using stats_totals [of store2 sum_exactly] stats_totals [of empty_store sum_exactly]
    exact_sum_exactly whole_store2
  by (simp add: store2_eq empty_store_def)

text \<open>The claim of C2 about the empty store fails: the totals are not the number 0.\<close>

theorem stats_empty_counterexample:
  "total_income (get_stats sum_exactly empty_store) \<noteq> Some 0 \<and>
   total_expense (get_stats sum_exactly empty_store) \<noteq> Some 0"
  by (simp add: get_stats_def sql_sum_def empty_store_def)

section \<open>Sorting\<close>

lemma mset_insert_by: "mset (insert_by le x xs) = add_mset x (mset xs)"
  by (induction xs) auto

lemma mset_sort_by: "mset (sort_by le xs) = mset xs"
  by (induction xs) (auto simp: sort_by_def mset_insert_by)

lemma set_insert_by: "set (insert_by le x xs) = insert x (set xs)"
  by (induction xs) auto

lemma set_sort_by: "set (sort_by le xs) = set xs"
  by (induction xs) (auto simp: sort_by_def set_insert_by)

lemma sorted_insert_by:
  assumes total: "\<forall>a\<in>A. \<forall>b\<in>A. le a b \<or> le b a"
    and trans: "\<forall>a\<in>A. \<forall>b\<in>A. \<forall>c\<in>A. le a b \<longrightarrow> le b c \<longrightarrow> le a c"
  shows "x \<in> A \<Longrightarrow> set xs \<subseteq> A \<Longrightarrow> sorted_wrt le xs \<Longrightarrow> sorted_wrt le (insert_by le x xs)"
proof (induction xs)
  case Nil
  then show ?case by simp
next
  case (Cons y ys)
  show ?case
  proof (cases "le x y")
    case True
    have "le x z" if "z \<in> set ys" for z
    proof -
      have "le y z" using Cons.prems(3) that by simp
      moreover have "y \<in> A" "z \<in> A" using Cons.prems(2) that by auto
      ultimately show ?thesis using trans True Cons.prems(1) by blast
    qed
    with True Cons.prems(3) show ?thesis by simp
  next
    case False
    then have "le y x" using total Cons.prems(1,2) by auto
    moreover have "sorted_wrt le (insert_by le x ys)"
      using Cons by simp
    ultimately show ?thesis
      using False Cons.prems(3) by (auto simp: set_insert_by)
  qed
qed

lemma sorted_sort_by:
  assumes total: "\<forall>a\<in>A. \<forall>b\<in>A. le a b \<or> le b a"
    and trans: "\<forall>a\<in>A. \<forall>b\<in>A. \<forall>c\<in>A. le a b \<longrightarrow> le b c \<longrightarrow> le a c"
  shows "set xs \<subseteq> A \<Longrightarrow> sorted_wrt le (sort_by le xs)"
proof (induction xs)
  case Nil
  then show ?case by (simp add: sort_by_def)
next
  case (Cons x xs)
  then have "sorted_wrt le (sort_by le xs)" by simp
  moreover have "set (sort_by le xs) \<subseteq> A" using Cons.prems by (simp add: set_sort_by)
  moreover have "x \<in> A" using Cons.prems by simp
  ultimately have "sorted_wrt le (insert_by le x (sort_by le xs))"
    using sorted_insert_by [OF total trans] by blast
  then show ?case by (simp add: sort_by_def)
qed

section \<open>The listing\<close>

lemma order_by_total: "order_by a b \<or> order_by b a"
  by (auto simp: order_by_def)

lemma order_by_trans: "order_by a b \<Longrightarrow> order_by b c \<Longrightarrow> order_by a c"
  by (auto simp: order_by_def)

lemma sorted_list_transactions: "sorted_wrt order_by (list_transactions s)"
  unfolding list_transactions_def
  by (rule sorted_sort_by [where A = UNIV]) (use order_by_total order_by_trans in blast)+

lemma insert_by_front: "\<forall>z\<in>set zs. le x z \<Longrightarrow> insert_by le x zs = x # zs"
  by (cases zs) auto

lemma filter_insert_by:
  assumes trans: "\<And>a b c. le a b \<Longrightarrow> le b c \<Longrightarrow> le a c"
  shows "sorted_wrt le xs \<Longrightarrow>
    filter P (insert_by le x xs) = (if P x then insert_by le x (filter P xs) else filter P xs)"
proof (induction xs)
  case Nil
  then show ?case by simp
next
  case (Cons y ys)
  show ?case
  proof (cases "le x y")
    case True
    have "\<forall>z\<in>set (filter P ys). le x z"
      using Cons.prems True trans by auto
    then have "insert_by le x (filter P ys) = x # filter P ys"
      by (rule insert_by_front)
    with True show ?thesis by simp
  next
    case False
    with Cons show ?thesis by simp
  qed
qed

lemma filter_sort_by:
  assumes total: "\<And>a b. le a b \<or> le b a"
    and trans: "\<And>a b c. le a b \<Longrightarrow> le b c \<Longrightarrow> le a c"
  shows "filter P (sort_by le xs) = sort_by le (filter P xs)"
proof (induction xs)
  case Nil
  then show ?case by (simp add: sort_by_def)
next
  case (Cons x xs)
  have "sorted_wrt le (sort_by le xs)"
    by (rule sorted_sort_by [where A = UNIV]) (use total trans in blast)+
  then have "filter P (insert_by le x (sort_by le xs)) =
      (if P x then insert_by le x (filter P (sort_by le xs)) else filter P (sort_by le xs))"
    using filter_insert_by [of le] trans by blast
  with Cons show ?case by (simp add: sort_by_def)
qed

lemma filter_list_transactions:
  "filter P (list_transactions s) = sort_by order_by (filter P (rows s))"
  unfolding list_transactions_def
  by (rule filter_sort_by) (use order_by_total order_by_trans in blast)+

text \<open>
  C5, as the code has it. For every store, the listing holds exactly the stored records,
  ordered by \<open>date\<close> descending; records of one date are ordered by \<open>created_at\<close>
  descending. \<open>created_at\<close> is the time of the insertion to the second, so this puts the
  later entry first only when the two were not stored within the same second.
\<close>

theorem list_sorted:
  "sorted_wrt (\<lambda>a b. date a > date b \<or> (date a = date b \<and> created_at a \<ge> created_at b))
     (list_transactions s) \<and>
   mset (list_transactions s) = mset (rows s)"
  using sorted_list_transactions [of s]
  by (simp add: order_by_def [abs_def] list_transactions_def mset_sort_by)

text \<open>
  The claim of C5 fails for two records of one date stored within the same second: the
  later entry, with id 2, is not listed first.
\<close>

theorem list_same_second_counterexample:
  "map (\<lambda>r. (txn_id r, date r, created_at r)) (list_transactions store6) =
     [(1, ''2024-01-01'', ''2024-01-01 08:00:00''),
      (2, ''2024-01-01'', ''2024-01-01 08:00:00'')]"
  by (simp add: list_transactions_def sort_by_def store6_eq order_by_def)

section \<open>Appending\<close>

lemma fold_max_ge: "b \<le> fold max xs (b::int)"
  by (induction xs arbitrary: b) (auto intro: order_trans [OF max.cobounded2])

lemma fold_max_mem: "x \<in> set xs \<Longrightarrow> x \<le> fold max xs (b::int)"
proof (induction xs arbitrary: b)
  case Nil
  then show ?case by simp
next
  case (Cons y ys)
  show ?case
  proof (cases "x = y")
    case True
    have "max y b \<le> fold max ys (max y b)" by (rule fold_max_ge)
    with True show ?thesis by simp
  next
    case False
    with Cons show ?thesis by simp
  qed
qed

lemma next_id_fresh: "r \<in> set (rows s) \<Longrightarrow> txn_id r < next_id s"
  using fold_max_mem [of "txn_id r" "map txn_id (rows s)" "seq s"]
  by (simp add: next_id_def)

lemma next_id_seq: "seq s < next_id s"
  using fold_max_ge [of "seq s" "map txn_id (rows s)"]
  by (simp add: next_id_def)

lemma post_transaction_400:
  "falsy_number (req_amount b) \<or> falsy_string (req_type b) \<or>
   falsy_string (req_category b) \<or> falsy_string (req_date b) \<Longrightarrow>
   post_transaction now b s = (Inl Status400, s)"
  by (simp add: post_transaction_def)

lemma post_transaction_500:
  "req_amount b = Some a \<Longrightarrow> a \<noteq> 0 \<Longrightarrow> req_type b = Some t \<Longrightarrow> t \<noteq> [] \<Longrightarrow>
   req_category b = Some c \<Longrightarrow> c \<noteq> [] \<Longrightarrow> req_date b = Some d \<Longrightarrow> d \<noteq> [] \<Longrightarrow>
   \<not> check_type t \<Longrightarrow> post_transaction now b s = (Inl Status500, s)"
  by (simp add: post_transaction_def falsy_number_def falsy_string_def insert_transaction_def)

lemma post_transaction_ok:
  "req_amount b = Some a \<Longrightarrow> a \<noteq> 0 \<Longrightarrow> req_type b = Some t \<Longrightarrow> check_type t \<Longrightarrow>
   req_category b = Some c \<Longrightarrow> c \<noteq> [] \<Longrightarrow> req_date b = Some d \<Longrightarrow> d \<noteq> [] \<Longrightarrow>
   post_transaction now b s =
     (Inr (next_id s),
      \<lparr>rows = rows s @ [\<lparr>txn_id = next_id s, amount = a, type = t, category = c,
                          description = req_description b, date = d, created_at = now\<rparr>],
       seq = next_id s\<rparr>)"
  by (auto simp add: post_transaction_def falsy_number_def falsy_string_def
      insert_transaction_def check_type_def Let_def)

text \<open>
  C1, as the code has it. A request whose \<open>amount\<close> is missing or 0, or whose \<open>type\<close>,
  \<open>category\<close> or \<open>date\<close> is missing or empty, is answered with status 400 and leaves the
  store and the listing as they were. A request with all four present whose \<open>type\<close> is
  neither income nor expense is answered with status 500 (the \<open>CHECK\<close> constraint
  fails inside the \<open>try\<close>) and leaves the store and the listing as they were. Every
  other request is accepted, whatever the sign of its amount and the form of its date.
\<close>

theorem post_rejections:
  "((req_amount b = None \<or> req_amount b = Some 0 \<or> req_type b = None \<or> req_type b = Some [] \<or>
     req_category b = None \<or> req_category b = Some [] \<or> req_date b = None \<or>
     req_date b = Some []) \<longrightarrow>
      post_transaction now b s = (Inl Status400, s) \<and>
      list_transactions (snd (post_transaction now b s)) = list_transactions s) \<and>
   (req_amount b = Some a \<and> a \<noteq> 0 \<and> req_type b = Some t \<and> t \<noteq> [] \<and>
    req_category b = Some c \<and> c \<noteq> [] \<and> req_date b = Some d \<and> d \<noteq> [] \<longrightarrow>
      (\<not> check_type t \<longrightarrow>
         post_transaction now b s = (Inl Status500, s) \<and>
         list_transactions (snd (post_transaction now b s)) = list_transactions s) \<and>
      (check_type t \<longrightarrow> fst (post_transaction now b s) = Inr (next_id s)))"
proof -
  have "post_transaction now b s = (Inl Status400, s)"
    if "req_amount b = None \<or> req_amount b = Some 0 \<or> req_type b = None \<or>
        req_type b = Some [] \<or> req_category b = None \<or> req_category b = Some [] \<or>
        req_date b = None \<or> req_date b = Some []"
    using that by (intro post_transaction_400) (auto simp: falsy_number_def falsy_string_def)
  moreover have "post_transaction now b s = (Inl Status500, s)"
    if "req_amount b = Some a" "a \<noteq> 0" "req_type b = Some t" "t \<noteq> []"
       "req_category b = Some c" "c \<noteq> []" "req_date b = Some d" "d \<noteq> []" "\<not> check_type t"
    using that by (rule post_transaction_500)
  moreover have "fst (post_transaction now b s) = Inr (next_id s)"
    if "req_amount b = Some a" "a \<noteq> 0" "req_type b = Some t"
       "req_category b = Some c" "c \<noteq> []" "req_date b = Some d" "d \<noteq> []" "check_type t"
    using that by (simp add: post_transaction_ok)
  ultimately show ?thesis by auto
qed

theorem post_rejections_witness:
  "post_transaction ''2024-01-05 00:00:00'' (lunch\<lparr>req_amount := Some 0\<rparr>) store2 = (Inl Status400, store2) \<and>
   post_transaction ''2024-01-05 00:00:00'' (lunch\<lparr>req_type := Some ''transfer''\<rparr>) store2 = (Inl Status500, store2) \<and>
   fst (post_transaction ''2024-01-05 00:00:00'' (refund\<lparr>req_date := Some ''someday''\<rparr>) store2) = Inr 3"
  using post_rejections [of "lunch\<lparr>req_amount := Some 0\<rparr>" "''2024-01-05 00:00:00''" store2 50 "''expense''" "''food''" "''2024-01-01''"]
    post_rejections [of "lunch\<lparr>req_type := Some ''transfer''\<rparr>" "''2024-01-05 00:00:00''" store2 50 "''transfer''" "''food''" "''2024-01-01''"]
    post_rejections [of "refund\<lparr>req_date := Some ''someday''\<rparr>" "''2024-01-05 00:00:00''" store2 "- 5" "''expense''" "''food''" "''someday''"]
  by (simp add: lunch_def refund_def check_type_def next_id_def store2_eq)

text \<open>
  The claim of C1 fails for a negative amount: the request is one that the specification
  rejects, and it is accepted and listed.
\<close>

theorem post_negative_counterexample:
  "spec_rejects refund \<and>
   fst (post_transaction ''2024-01-03 10:00:00'' refund store2) = Inr 3 \<and>
   list_transactions (snd (post_transaction ''2024-01-03 10:00:00'' refund store2))
     \<noteq> list_transactions store2"
proof -
  have "spec_rejects refund" by (simp add: spec_rejects_def refund_def)
  moreover have "post_transaction ''2024-01-03 10:00:00'' refund store2 = (Inr 3, store3)"
    using post_transaction_ok [of refund "- 5" "''expense''" "''food''" "''2024-01-03''" "''2024-01-03 10:00:00''" store2]
    by (simp add: refund_def check_type_def next_id_def store2_eq store3_eq)
  moreover have "list_transactions store3 \<noteq> list_transactions store2"
  proof
    assume "list_transactions store3 = list_transactions store2"
    then have "length (list_transactions store3) = length (list_transactions store2)" by simp
    then show False
      by (simp add: list_transactions_def sort_by_def store2_eq store3_eq order_by_def)
  qed
  ultimately show ?thesis by simp
qed

section \<open>Record invariants\<close>

lemma record_invariant_empty: "record_invariant empty_store"
  by (simp add: record_invariant_def empty_store_def)

lemma post_transaction_cases:
  obtains (rejected) e where "post_transaction now b s = (Inl e, s)"
  | (accepted) a t c d where
      "req_amount b = Some a" "a \<noteq> 0" "req_type b = Some t" "check_type t"
      "req_category b = Some c" "c \<noteq> []" "req_date b = Some d" "d \<noteq> []"
proof (cases "falsy_number (req_amount b) \<or> falsy_string (req_type b) \<or>
    falsy_string (req_category b) \<or> falsy_string (req_date b)")
  case True
  then show ?thesis using rejected [of Status400] by (simp add: post_transaction_400)
next
  case False
  then obtain a t c d where
    *: "req_amount b = Some a" "a \<noteq> 0" "req_type b = Some t" "t \<noteq> []"
       "req_category b = Some c" "c \<noteq> []" "req_date b = Some d" "d \<noteq> []"
    by (auto simp: falsy_number_def falsy_string_def split: option.splits)
  show ?thesis
  proof (cases "check_type t")
    case True
    with * show ?thesis using accepted by blast
  next
    case False
    with * show ?thesis using rejected [of Status500] post_transaction_500 by blast
  qed
qed

lemma record_invariant_insert:
  assumes "record_invariant s" "check_type t"
  shows "record_invariant
    \<lparr>rows = rows s @ [\<lparr>txn_id = next_id s, amount = a, type = t, category = c,
                        description = x, date = d, created_at = now\<rparr>],
     seq = next_id s\<rparr>"
proof -
  have "txn_id r < next_id s" if "r \<in> set (rows s)" for r
    using that by (rule next_id_fresh)
  moreover have "seq s < next_id s" by (rule next_id_seq)
  ultimately show ?thesis
    using assms by (fastforce simp: record_invariant_def sorted_wrt_append)
qed

lemma record_invariant_post:
  assumes "record_invariant s"
  shows "record_invariant (snd (post_transaction now b s))"
proof (cases now b s rule: post_transaction_cases)
  case (rejected e)
  with assms show ?thesis by simp
next
  case (accepted a t c d)
  then show ?thesis
    using record_invariant_insert [OF assms, of t a c _ d] by (simp add: post_transaction_ok)
qed

lemma record_invariant_delete:
  assumes "record_invariant s"
  shows "record_invariant (snd (delete_transaction num p s))"
  using assms
  by (auto simp: record_invariant_def delete_transaction_def sorted_wrt_map sorted_wrt_filter)

lemma insert_transaction_Some:
  assumes "insert_transaction now a t c d dt s = Some (i, s')"
  shows "check_type t" "i = next_id s"
    "s' = \<lparr>rows = rows s @ [\<lparr>txn_id = next_id s, amount = a, type = t, category = c,
                                description = d, date = dt, created_at = now\<rparr>],
           seq = next_id s\<rparr>"
  using assms by (auto simp: insert_transaction_def Let_def split: if_splits)

lemma record_invariant_inserted:
  assumes "record_invariant s" "insert_transaction now a t c d dt s = Some (i, s')"
  shows "record_invariant s'"
  using record_invariant_insert [OF assms(1) insert_transaction_Some(1) [OF assms(2)]]
    insert_transaction_Some(3) [OF assms(2)]
  by simp

lemma reachable_record_invariant: "reachable s \<Longrightarrow> record_invariant s"
proof (induction rule: reachable.induct)
  case initial
  show ?case by (rule record_invariant_empty)
next
  case (posted s now b)
  then show ?case by (simp add: record_invariant_post)
next
  case (inserted s now a t c d dt i s')
  then show ?case using record_invariant_inserted by blast
next
  case (deleted s num p)
  then show ?case by (simp add: record_invariant_delete)
qed

lemma record_invariant_distinct: "record_invariant s \<Longrightarrow> distinct (map txn_id (rows s))"
  by (simp add: record_invariant_def strict_sorted_iff)


text \<open>
  C8, as the code has it. Every reachable store satisfies the record invariants that the
  table keeps (ids positive, strictly increasing in the order of creation and bounded by
  the counter; \<open>type\<close> income or expense), and the operations preserve them. A stored
  request gets an id above the counter, hence above every id assigned before, and leaves
  the earlier rows as they were; a deletion changes no row that it keeps and does not
  lower the counter. Neither the sign of \<open>amount\<close> nor the form of \<open>date\<close> is among the
  invariants.
\<close>

theorem reachable_invariant:
  assumes "reachable s"
  shows "record_invariant s \<and>
    record_invariant (snd (post_transaction now b s)) \<and>
    record_invariant (snd (delete_transaction num p s)) \<and>
    (\<forall>i s'. post_transaction now b s = (Inr i, s') \<longrightarrow>
       seq s < i \<and> seq s' = i \<and> (\<forall>r\<in>set (rows s). txn_id r < i) \<and>
       (\<exists>r. rows s' = rows s @ [r] \<and> txn_id r = i)) \<and>
    (\<forall>e s'. post_transaction now b s = (Inl e, s') \<longrightarrow> s' = s) \<and>
    (\<forall>i s'. insert_transaction now a t c d dt s = Some (i, s') \<longrightarrow>
       record_invariant s' \<and> seq s < i \<and> seq s' = i \<and>
       (\<forall>r\<in>set (rows s). txn_id r < i) \<and> (\<exists>r. rows s' = rows s @ [r] \<and> txn_id r = i)) \<and>
    set (rows (snd (delete_transaction num p s))) \<subseteq> set (rows s) \<and>
    seq (snd (delete_transaction num p s)) = seq s"
proof -
  have inv: "record_invariant s"
    using assms by (rule reachable_record_invariant)
  have post: "seq s < i \<and> seq s' = i \<and> (\<forall>r\<in>set (rows s). txn_id r < i) \<and>
       (\<exists>r. rows s' = rows s @ [r] \<and> txn_id r = i)"
    if "post_transaction now b s = (Inr i, s')" for i s'
  proof (cases now b s rule: post_transaction_cases)
    case (rejected e)
    with that show ?thesis by simp
  next
    case (accepted a t c d)
    then have "i = next_id s" and "rows s' = rows s @
        [\<lparr>txn_id = next_id s, amount = a, type = t, category = c,
          description = req_description b, date = d, created_at = now\<rparr>]"
      and "seq s' = next_id s"
      using that by (auto simp: post_transaction_ok)
    then show ?thesis
      using next_id_seq [of s] next_id_fresh [of _ s] by simp
  qed
  have rej: "s' = s" if "post_transaction now b s = (Inl e, s')" for e s'
  proof (cases now b s rule: post_transaction_cases)
    case (rejected e')
    with that show ?thesis by simp
  next
    case (accepted a t c d)
    with that show ?thesis by (simp add: post_transaction_ok)
  qed
  have del: "set (rows (snd (delete_transaction num p s))) \<subseteq> set (rows s)"
    "seq (snd (delete_transaction num p s)) = seq s"
    by (auto simp: delete_transaction_def)
  have ins: "record_invariant s' \<and> seq s < i \<and> seq s' = i \<and>
       (\<forall>r\<in>set (rows s). txn_id r < i) \<and> (\<exists>r. rows s' = rows s @ [r] \<and> txn_id r = i)"
    if "insert_transaction now a t c d dt s = Some (i, s')" for i s'
  proof -
    have "record_invariant s'"
      using inv that by (rule record_invariant_inserted)
    moreover have "seq s < i" and "seq s' = i" and "\<exists>r. rows s' = rows s @ [r] \<and> txn_id r = i"
      using insert_transaction_Some(2,3) [OF that] next_id_seq [of s] by simp_all
    moreover have "\<forall>r\<in>set (rows s). txn_id r < i"
      using insert_transaction_Some(2) [OF that] next_id_fresh [of _ s] by simp
    ultimately show ?thesis by simp
  qed
  have p1: "record_invariant (snd (post_transaction now b s))"
    using inv by (rule record_invariant_post)
  have p2: "record_invariant (snd (delete_transaction num p s))"
    using inv by (rule record_invariant_delete)
  show ?thesis
    using inv p1 p2 post rej ins del by blast
qed

lemma reachable_store1: "reachable store1"
  unfolding store1_def by (rule reachable.posted) (rule reachable.initial)

lemma reachable_store2: "reachable store2"
  unfolding store2_def by (rule reachable.posted) (rule reachable_store1)

lemma reachable_store3: "reachable store3"
  unfolding store3_def by (rule reachable.posted) (rule reachable_store2)

lemma reachable_store4: "reachable store4"
  unfolding store4_def by (rule reachable.posted) (rule reachable.initial)

lemma insert_store8:
  "insert_transaction ''2024-01-06 09:00:00'' 0 ''expense'' ''food'' None ''2024-01-01''
     empty_store = Some (1, store8)"
  by (simp add: insert_transaction_def check_type_def next_id_def empty_store_def store8_def)

lemma reachable_store8: "reachable store8"
  using reachable.initial insert_store8 by (rule reachable.inserted)

theorem reachable_invariant_witness:
  "reachable store2 \<and> record_invariant store2 \<and>
   record_invariant (snd (post_transaction ''2024-01-03 10:00:00'' refund store2)) \<and>
   record_invariant (snd (delete_transaction decimal ''1'' store2)) \<and>
   reachable store8 \<and> map amount (rows store8) = [0] \<and> record_invariant store8"
proof -
  have "map amount (rows store8) = [0]"
    by (simp add: store8_def)
  with reachable_invariant [OF reachable_store2, of "''2024-01-03 10:00:00''" refund decimal "''1''"]
    reachable_invariant [OF reachable_store8] reachable_store2 reachable_store8
  show ?thesis by simp
qed

text \<open>
  The invariants of C8 as stated fail: a reachable store holds a record with a negative
  amount, and another one a record whose date is no calendar date.
\<close>

theorem spec_invariant_counterexample:
  "reachable store3 \<and> \<not> spec_invariant store3 \<and> reachable store4 \<and> \<not> spec_invariant store4"
proof -
  have "\<not> spec_invariant store3"
    by (simp add: spec_invariant_def store3_eq)
  moreover have "\<not> spec_invariant store4"
    by (simp add: spec_invariant_def store4_eq valid_calendar_date_def)
  ultimately show ?thesis
    using reachable_store3 reachable_store4 by simp
qed

section \<open>Appending, then listing\<close>

text \<open>
  C3, as the code has it. For every store and every accepted request (in particular every
  request with a positive amount, a type of income or expense, a category and a calendar
  date), the request is answered with an id, and the listing of the new store is the old
  listing with exactly one record added. That record carries the id and the amount, type,
  category, description and date of the request; it is the only record of the listing
  with that id; the id is above the id of every other record; and in a reachable store
  all ids of the listing are distinct. Records that agree with the request in the five
  fields and were stored before stay listed.
\<close>

theorem post_then_list:
  assumes "req_amount b = Some a" "a \<noteq> 0" "req_type b = Some t" "check_type t"
    "req_category b = Some c" "c \<noteq> []" "req_date b = Some d" "d \<noteq> []"
  shows "\<exists>i s'. post_transaction now b s = (Inr i, s') \<and>
    mset (list_transactions s') =
      add_mset \<lparr>txn_id = i, amount = a, type = t, category = c,
                description = req_description b, date = d, created_at = now\<rparr>
        (mset (list_transactions s)) \<and>
    filter (\<lambda>r. txn_id r = i) (list_transactions s') =
      [\<lparr>txn_id = i, amount = a, type = t, category = c,
        description = req_description b, date = d, created_at = now\<rparr>] \<and>
    (\<forall>r\<in>set (list_transactions s). txn_id r < i) \<and>
    (reachable s \<longrightarrow> distinct (map txn_id (list_transactions s')))"
proof -
  define i where "i = next_id s"
  define new where "new = \<lparr>txn_id = i, amount = a, type = t, category = c,
    description = req_description b, date = d, created_at = now\<rparr>"
  define s' where "s' = \<lparr>rows = rows s @ [new], seq = i\<rparr>"
  have post: "post_transaction now b s = (Inr i, s')"
    using assms by (simp add: post_transaction_ok i_def new_def s'_def)
  have fresh: "txn_id r < i" if "r \<in> set (rows s)" for r
    using that by (simp add: i_def next_id_fresh)
  have m: "mset (list_transactions s') = add_mset new (mset (list_transactions s))"
    by (simp add: list_transactions_def mset_sort_by s'_def)
  have "filter (\<lambda>r. txn_id r = i) (rows s) = []"
    using fresh by (auto simp: filter_empty_conv)
  then have f: "filter (\<lambda>r. txn_id r = i) (list_transactions s') = [new]"
    by (simp add: filter_list_transactions s'_def new_def sort_by_def)
  have o: "\<forall>r\<in>set (list_transactions s). txn_id r < i"
    using fresh by (simp add: list_transactions_def set_sort_by)
  have dist: "distinct (map txn_id (list_transactions s'))" if "reachable s"
  proof -
    have "reachable (snd (post_transaction now b s))"
      using that by (rule reachable.posted)
    then have "distinct (map txn_id (rows s'))"
      using post by (simp add: reachable_record_invariant record_invariant_distinct)
    moreover have "mset (map txn_id (list_transactions s')) = mset (map txn_id (rows s'))"
      by (simp add: list_transactions_def mset_sort_by)
    ultimately show ?thesis
      using mset_eq_imp_distinct_iff by blast
  qed
  show ?thesis
    using post m f o dist unfolding new_def by blast
qed

theorem post_then_list_witness:
  "\<exists>i s'. post_transaction ''2024-01-02 09:00:00'' salary store1 = (Inr i, s') \<and>
     filter (\<lambda>r. txn_id r = i) (list_transactions s') =
       [\<lparr>txn_id = i, amount = 1000, type = ''income'', category = ''salary'',
         description = None, date = ''2024-01-02'', created_at = ''2024-01-02 09:00:00''\<rparr>]"
proof -
  have "req_amount salary = Some 1000" "(1000::real) \<noteq> 0" "req_type salary = Some ''income''"
    "check_type ''income''" "req_category salary = Some ''salary''" "''salary'' \<noteq> []"
    "req_date salary = Some ''2024-01-02''" "''2024-01-02'' \<noteq> []"
    "req_description salary = None"
    by (simp_all add: salary_def check_type_def)
  from post_then_list [OF this(1-8), of "''2024-01-02 09:00:00''" store1] this(9)
  show ?thesis by auto
qed

text \<open>
  Read as a count of the records that agree with the request in the five fields, the
  claim of C3 fails: the same request appended twice is listed twice, under two ids.
\<close>

theorem post_twice_counterexample:
  "fst (post_transaction ''2024-01-01 08:00:01'' lunch store1) = Inr 2 \<and>
   map (\<lambda>r. (txn_id r, amount r, type r, category r, description r, date r))
     (list_transactions (snd (post_transaction ''2024-01-01 08:00:01'' lunch store1))) =
     [(2, 50, ''expense'', ''food'', Some ''lunch'', ''2024-01-01''),
      (1, 50, ''expense'', ''food'', Some ''lunch'', ''2024-01-01'')]"
proof -
  have "post_transaction ''2024-01-01 08:00:01'' lunch store1 =
    (Inr 2,
     \<lparr>rows = rows store1 @
        [\<lparr>txn_id = 2, amount = 50, type = ''expense'', category = ''food'',
          description = Some ''lunch'', date = ''2024-01-01'',
          created_at = ''2024-01-01 08:00:01''\<rparr>],
      seq = 2\<rparr>)"
    using post_transaction_ok [of lunch 50 "''expense''" "''food''" "''2024-01-01''"
        "''2024-01-01 08:00:01''" store1]
    by (simp add: lunch_def check_type_def next_id_def store1_eq)
  then show ?thesis
    by (simp add: list_transactions_def sort_by_def store1_eq order_by_def)
qed

section \<open>Deleting\<close>

lemma distinct_filter_le_1:
  "distinct (map f xs) \<Longrightarrow> length (filter (\<lambda>r. f r = i) xs) \<le> 1"
proof (induction xs)
  case Nil
  then show ?case by simp
next
  case (Cons x xs)
  show ?case
  proof (cases "f x = i")
    case True
    have "f r \<noteq> i" if "r \<in> set xs" for r
      using Cons.prems True that by (metis distinct.simps(2) image_eqI list.simps(9) set_map)
    then have "filter (\<lambda>r. f r = i) xs = []"
      by (simp add: filter_empty_conv)
    with True show ?thesis by simp
  next
    case False
    with Cons show ?thesis by simp
  qed
qed

lemma delete_transaction_twice:
  "delete_transaction num p (snd (delete_transaction num p s)) =
     (Inr True, snd (delete_transaction num p s))"
  by (simp add: delete_transaction_def)

text \<open>
  C4. Let the id of the request denote the integer \<open>i\<close>, in a reachable store. The
  deletion reports success; the listing afterwards is the listing before without the
  records of id \<open>i\<close>, every other record unchanged and in place; at most one record has
  that id, so exactly that record is removed; and deleting again reports success and
  leaves the store as the first deletion left it.
\<close>

theorem delete_removes_exactly:
  assumes "reachable s" "num p = Some i"
  shows "fst (delete_transaction num p s) = Inr True \<and>
    list_transactions (snd (delete_transaction num p s)) =
      filter (\<lambda>r. txn_id r \<noteq> i) (list_transactions s) \<and>
    length (filter (\<lambda>r. txn_id r = i) (list_transactions s)) \<le> 1 \<and>
    delete_transaction num p (snd (delete_transaction num p s)) =
      (Inr True, snd (delete_transaction num p s))"
proof -
  have "filter (\<lambda>r. num p \<noteq> Some (txn_id r)) (rows s) =
      filter (\<lambda>r. txn_id r \<noteq> i) (rows s)"
    using assms(2) by (intro filter_cong) auto
  then have "list_transactions (snd (delete_transaction num p s)) =
      sort_by order_by (filter (\<lambda>r. txn_id r \<noteq> i) (rows s))"
    by (simp add: delete_transaction_def list_transactions_def)
  then have l: "list_transactions (snd (delete_transaction num p s)) =
      filter (\<lambda>r. txn_id r \<noteq> i) (list_transactions s)"
    by (simp add: filter_list_transactions)
  have "distinct (map txn_id (rows s))"
    using assms(1) by (simp add: reachable_record_invariant record_invariant_distinct)
  moreover have "mset (map txn_id (list_transactions s)) = mset (map txn_id (rows s))"
    by (simp add: list_transactions_def mset_sort_by)
  ultimately have "distinct (map txn_id (list_transactions s))"
    using mset_eq_imp_distinct_iff by blast
  then have o: "length (filter (\<lambda>r. txn_id r = i) (list_transactions s)) \<le> 1"
    by (rule distinct_filter_le_1)
  have "fst (delete_transaction num p s) = Inr True"
    by (simp add: delete_transaction_def)
  with l o show ?thesis
    using delete_transaction_twice by blast
qed

lemma decimal_2: "decimal ''2'' = Some 2"
  by (simp add: decimal_def is_digit_def number_of_def)

lemma list_store2:
  "list_transactions store2 =
     [\<lparr>txn_id = 2, amount = 1000, type = ''income'', category = ''salary'',
        description = None, date = ''2024-01-02'',
        created_at = ''2024-01-02 09:00:00''\<rparr>,
      \<lparr>txn_id = 1, amount = 50, type = ''expense'', category = ''food'',
        description = Some ''lunch'', date = ''2024-01-01'',
        created_at = ''2024-01-01 08:00:00''\<rparr>]"
  by (simp add: list_transactions_def sort_by_def store2_eq order_by_def)

theorem delete_removes_exactly_witness:
  "reachable store2 \<and> decimal ''2'' = Some 2 \<and>
   fst (delete_transaction decimal ''2'' store2) = Inr True \<and>
   list_transactions (snd (delete_transaction decimal ''2'' store2)) =
     [\<lparr>txn_id = 1, amount = 50, type = ''expense'', category = ''food'',
        description = Some ''lunch'', date = ''2024-01-01'',
        created_at = ''2024-01-01 08:00:00''\<rparr>]"
  using delete_removes_exactly [of store2 decimal "''2''" 2, OF reachable_store2 decimal_2]
    reachable_store2 decimal_2
  by (simp add: list_store2)

text \<open>
  C10. Whatever the text of the id, the deletion reports success and never an error. When
  no stored record has the integer that the text denotes, and in particular when the text
  denotes no integer, the store is left as it was.
\<close>

theorem delete_any_id:
  "fst (delete_transaction num p s) = Inr True \<and>
   ((\<forall>r\<in>set (rows s). num p \<noteq> Some (txn_id r)) \<longrightarrow>
      snd (delete_transaction num p s) = s) \<and>
   (num p = None \<longrightarrow> snd (delete_transaction num p s) = s)"
proof -
  have "snd (delete_transaction num p s) = s"
    if "\<forall>r\<in>set (rows s). num p \<noteq> Some (txn_id r)"
  proof -
    have "filter (\<lambda>r. num p \<noteq> Some (txn_id r)) (rows s) = rows s"
      using that by (simp add: filter_id_conv)
    then show ?thesis by (simp add: delete_transaction_def)
  qed
  moreover have "\<forall>r\<in>set (rows s). num p \<noteq> Some (txn_id r)" if "num p = None"
    using that by simp
  ultimately show ?thesis
    by (simp add: delete_transaction_def)
qed

lemma decimal_abc: "decimal ''abc'' = None"
  by (simp add: decimal_def is_digit_def)

lemma decimal_7: "decimal ''7'' = Some 7"
  by (simp add: decimal_def is_digit_def number_of_def)

theorem delete_any_id_witness:
  "decimal ''abc'' = None \<and> delete_transaction decimal ''abc'' store2 = (Inr True, store2) \<and>
   decimal ''7'' = Some 7 \<and> map txn_id (rows store2) = [1, 2] \<and>
   delete_transaction decimal ''7'' store2 = (Inr True, store2)"
proof -
  have n: "\<forall>r\<in>set (rows store2). decimal ''7'' \<noteq> Some (txn_id r)"
    by (simp add: decimal_7 store2_eq)
  have m: "map txn_id (rows store2) = [1, 2]"
    by (simp add: store2_eq)
  from delete_any_id [of decimal "''abc''" store2] delete_any_id [of decimal "''7''" store2]
    decimal_abc decimal_7 n m
  show ?thesis by (simp add: prod_eq_iff)
qed

section \<open>The category breakdown\<close>

lemma numbers_Cons:
  "numbers (v # vs) =
     (case v of Number n \<Rightarrow> n # numbers vs | Infinity \<Rightarrow> numbers vs | Text m as \<Rightarrow> numbers vs)"
  by (cases v) simp_all

lemma numbers_all: "\<forall>v\<in>set vs. \<exists>n. v = Number n \<Longrightarrow> map Number (numbers vs) = vs"
  by (induction vs rule: numbers.induct) auto

lemma numbers_update_new:
  "map_of acc k = None \<Longrightarrow>
   numbers (map snd (AList.update k v acc)) = numbers (map snd acc) @ numbers [v]"
  by (induction acc) (auto simp: numbers_Cons split: jsvalue.splits if_splits)

lemma numbers_update_number:
  fixes f :: "real \<Rightarrow> real"
  shows "map_of acc k = Some (Number n) \<Longrightarrow>
   sum_list (map f (numbers (map snd (AList.update k (Number m) acc)))) =
     sum_list (map f (numbers (map snd acc))) - f n + f m"
  by (induction acc) (auto simp: numbers_Cons split: jsvalue.splits if_splits)

lemma numbers_update_text:
  "map_of acc k = Some (Text x as) \<Longrightarrow>
   numbers (map snd (AList.update k (Text y bs) acc)) = numbers (map snd acc)"
  by (induction acc) (auto simp: numbers_Cons split: jsvalue.splits if_splits)

lemma number_le_abs_sum:
  assumes "map_of acc k = Some (Number n)"
  shows "\<bar>n\<bar> \<le> sum_list (map abs (numbers (map snd acc)))"
proof -
  have "0 \<le> sum_list (map abs (numbers (map snd (AList.update k (Number 0) acc))))"
    by (rule sum_list_nonneg) auto
  then show ?thesis
    using numbers_update_number [OF assms, of abs 0] by simp
qed

text \<open>Additions that do not round.\<close>

lemma exact_plus_apply:
  assumes "exact_plus js_plus" "x \<in> \<int>" "y \<in> \<int>" "\<bar>x\<bar> + \<bar>y\<bar> \<le> 2 ^ 53"
  shows "js_plus x y = Some (x + y)"
proof -
  have "\<bar>x\<bar> \<le> 2 ^ 53" "\<bar>y\<bar> \<le> 2 ^ 53" "\<bar>x + y\<bar> \<le> 2 ^ 53"
    using assms(4) by linarith+
  then show ?thesis
    using assms(1-3) unfolding exact_plus_def by blast
qed

lemma add_number_exact:
  assumes "exact_plus js_plus" "x \<in> \<int>" "y \<in> \<int>" "\<bar>x\<bar> + \<bar>y\<bar> \<le> 2 ^ 53"
  shows "add_number js_plus x y = Number (x + y)"
  using exact_plus_apply [OF assms] by (simp add: add_number_def)

text \<open>What one step does to the entry of a category.\<close>

lemma category_step_other:
  "category t \<noteq> c \<Longrightarrow> map_of (category_step js_plus acc t) c = map_of acc c"
  by (auto simp: category_step_def Let_def update_conv' split: option.splits jsvalue.splits)

lemma category_step_new:
  assumes "exact_plus js_plus" "amount t \<in> \<int>" "\<bar>amount t\<bar> \<le> 2 ^ 53"
    and "category t \<notin> set object_prototype_keys" "map_of acc (category t) = None"
  shows "map_of (category_step js_plus acc t) (category t) = Some (Number (amount t))"
proof -
  have "add_number js_plus 0 (amount t) = Number (0 + amount t)"
    using assms(1-3) by (intro add_number_exact) simp_all
  then show ?thesis
    using assms(4,5) by (simp add: category_step_def Let_def update_conv')
qed

lemma category_step_number:
  assumes "exact_plus js_plus" "n \<in> \<int>" "amount t \<in> \<int>" "\<bar>n\<bar> + \<bar>amount t\<bar> \<le> 2 ^ 53"
    and "map_of acc (category t) = Some (Number n)"
  shows "map_of (category_step js_plus acc t) (category t) = Some (Number (n + amount t))"
proof -
  have "add_number js_plus n (amount t) = Number (n + amount t)"
    using assms(1-4) by (rule add_number_exact)
  moreover have "(if n = 0 then 0 else n) = n"
    by simp
  ultimately show ?thesis
    using assms(5) by (simp add: category_step_def Let_def update_conv')
qed

lemma category_fold_number:
  assumes "exact_plus js_plus"
  shows "\<forall>t\<in>set ts. amount t \<in> \<int> \<Longrightarrow> n \<in> \<int> \<Longrightarrow>
   \<bar>n\<bar> + sum_list (map (\<lambda>t. \<bar>amount t\<bar>) ts) \<le> 2 ^ 53 \<Longrightarrow>
   map_of acc c = Some (Number n) \<Longrightarrow>
   map_of (fold (\<lambda>t acc. category_step js_plus acc t) ts acc) c =
     Some (Number (n + sum_list (map amount (filter (\<lambda>t. category t = c) ts))))"
proof (induction ts arbitrary: acc n)
  case Nil
  then show ?case by simp
next
  case (Cons t ts)
  have whole: "\<forall>t\<in>set ts. amount t \<in> \<int>" and a: "amount t \<in> \<int>"
    using Cons.prems(1) by simp_all
  have bound: "\<bar>n\<bar> + \<bar>amount t\<bar> + sum_list (map (\<lambda>t. \<bar>amount t\<bar>) ts) \<le> 2 ^ 53"
    using Cons.prems(3) by simp
  have rest: "0 \<le> sum_list (map (\<lambda>t. \<bar>amount t\<bar>) ts)"
    by (rule sum_list_nonneg) auto
  show ?case
  proof (cases "category t = c")
    case True
    have "\<bar>n\<bar> + \<bar>amount t\<bar> \<le> 2 ^ 53"
      using bound rest by linarith
    then have "map_of (category_step js_plus acc t) c = Some (Number (n + amount t))"
      using category_step_number [OF assms Cons.prems(2) a] Cons.prems(4) True by blast
    moreover have "n + amount t \<in> \<int>"
      using Cons.prems(2) a by simp
    moreover have "\<bar>n + amount t\<bar> + sum_list (map (\<lambda>t. \<bar>amount t\<bar>) ts) \<le> 2 ^ 53"
      using bound by linarith
    ultimately have "map_of (fold (\<lambda>t acc. category_step js_plus acc t) ts
        (category_step js_plus acc t)) c =
      Some (Number (n + amount t + sum_list (map amount (filter (\<lambda>t. category t = c) ts))))"
      using Cons.IH [OF whole] by blast
    with True show ?thesis by (simp add: add.assoc)
  next
    case False
    then have "map_of (category_step js_plus acc t) c = Some (Number n)"
      using Cons.prems(4) by (simp add: category_step_other)
    moreover have "\<bar>n\<bar> + sum_list (map (\<lambda>t. \<bar>amount t\<bar>) ts) \<le> 2 ^ 53"
      using bound by linarith
    ultimately have "map_of (fold (\<lambda>t acc. category_step js_plus acc t) ts
        (category_step js_plus acc t)) c =
      Some (Number (n + sum_list (map amount (filter (\<lambda>t. category t = c) ts))))"
      using Cons.IH [OF whole Cons.prems(2)] by blast
    with False show ?thesis by simp
  qed
qed

lemma category_fold_absent:
  assumes "exact_plus js_plus" "c \<notin> set object_prototype_keys"
  shows "\<forall>t\<in>set ts. amount t \<in> \<int> \<Longrightarrow>
   sum_list (map (\<lambda>t. \<bar>amount t\<bar>) ts) \<le> 2 ^ 53 \<Longrightarrow> map_of acc c = None \<Longrightarrow>
   map_of (fold (\<lambda>t acc. category_step js_plus acc t) ts acc) c =
     (if \<exists>t\<in>set ts. category t = c
      then Some (Number (sum_list (map amount (filter (\<lambda>t. category t = c) ts))))
      else None)"
proof (induction ts arbitrary: acc)
  case Nil
  then show ?case by simp
next
  case (Cons t ts)
  have whole: "\<forall>t\<in>set ts. amount t \<in> \<int>" and a: "amount t \<in> \<int>"
    using Cons.prems(1) by simp_all
  have bound: "\<bar>amount t\<bar> + sum_list (map (\<lambda>t. \<bar>amount t\<bar>) ts) \<le> 2 ^ 53"
    using Cons.prems(2) by simp
  have rest: "0 \<le> sum_list (map (\<lambda>t. \<bar>amount t\<bar>) ts)"
    by (rule sum_list_nonneg) auto
  show ?case
  proof (cases "category t = c")
    case True
    have "\<bar>amount t\<bar> \<le> 2 ^ 53"
      using bound rest by linarith
    then have "map_of (category_step js_plus acc t) c = Some (Number (amount t))"
      using category_step_new [OF assms(1) a] assms(2) Cons.prems(3) True by blast
    from category_fold_number [OF assms(1) whole a bound this] True
    show ?thesis by simp
  next
    case False
    then have "map_of (category_step js_plus acc t) c = None"
      using Cons.prems(3) by (simp add: category_step_other)
    moreover have "sum_list (map (\<lambda>t. \<bar>amount t\<bar>) ts) \<le> 2 ^ 53"
      using bound by linarith
    ultimately have "map_of (fold (\<lambda>t acc. category_step js_plus acc t) ts
        (category_step js_plus acc t)) c =
      (if \<exists>t\<in>set ts. category t = c
       then Some (Number (sum_list (map amount (filter (\<lambda>t. category t = c) ts))))
       else None)"
      using Cons.IH [OF whole] by blast
    with False show ?thesis by simp
  qed
qed

lemma category_fold_untouched:
  "\<forall>t\<in>set ts. category t \<noteq> c \<Longrightarrow>
   map_of (fold (\<lambda>t acc. category_step js_plus acc t) ts acc) c = map_of acc c"
  by (induction ts arbitrary: acc) (simp_all add: category_step_other)

lemma category_step_distinct:
  "distinct (map fst acc) \<Longrightarrow> distinct (map fst (category_step js_plus acc t))"
  by (simp add: category_step_def Let_def distinct_update split: option.splits jsvalue.splits)

lemma category_fold_distinct:
  "distinct (map fst acc) \<Longrightarrow>
   distinct (map fst (fold (\<lambda>t acc. category_step js_plus acc t) ts acc))"
  by (induction ts arbitrary: acc) (simp_all add: category_step_distinct)


text \<open>
  A key holds a text exactly when it is an inherited name, and a whole number otherwise;
  the numbers add up to the amounts of the records whose category is no inherited name.
\<close>

lemma kinds_update:
  assumes "\<forall>k v. map_of acc k = Some v \<longrightarrow>
      (k \<in> set object_prototype_keys \<longrightarrow> (\<exists>m as. v = Text m as)) \<and>
      (k \<notin> set object_prototype_keys \<longrightarrow> (\<exists>n. v = Number n \<and> n \<in> \<int>))"
    and "c \<in> set object_prototype_keys \<longrightarrow> (\<exists>m as. w = Text m as)"
    and "c \<notin> set object_prototype_keys \<longrightarrow> (\<exists>n. w = Number n \<and> n \<in> \<int>)"
  shows "\<forall>k v. map_of (AList.update c w acc) k = Some v \<longrightarrow>
      (k \<in> set object_prototype_keys \<longrightarrow> (\<exists>m as. v = Text m as)) \<and>
      (k \<notin> set object_prototype_keys \<longrightarrow> (\<exists>n. v = Number n \<and> n \<in> \<int>))"
  using assms by (simp add: update_conv')

lemma category_step_sum:
  assumes kinds: "\<forall>k v. map_of acc k = Some v \<longrightarrow>
      (k \<in> set object_prototype_keys \<longrightarrow> (\<exists>m as. v = Text m as)) \<and>
      (k \<notin> set object_prototype_keys \<longrightarrow> (\<exists>n. v = Number n \<and> n \<in> \<int>))"
    and exact: "exact_plus js_plus" and whole: "amount t \<in> \<int>"
    and bound: "sum_list (map abs (numbers (map snd acc))) + \<bar>amount t\<bar> \<le> 2 ^ 53"
  shows "(\<forall>k v. map_of (category_step js_plus acc t) k = Some v \<longrightarrow>
      (k \<in> set object_prototype_keys \<longrightarrow> (\<exists>m as. v = Text m as)) \<and>
      (k \<notin> set object_prototype_keys \<longrightarrow> (\<exists>n. v = Number n \<and> n \<in> \<int>))) \<and>
    sum_list (numbers (map snd (category_step js_plus acc t))) =
      sum_list (numbers (map snd acc)) +
        (if category t \<in> set object_prototype_keys then 0 else amount t) \<and>
    sum_list (map abs (numbers (map snd (category_step js_plus acc t)))) \<le>
      sum_list (map abs (numbers (map snd acc))) + \<bar>amount t\<bar>"
proof (cases "map_of acc (category t)")
  case None
  have nonneg: "0 \<le> sum_list (map abs (numbers (map snd acc)))"
    by (rule sum_list_nonneg) auto
  show ?thesis
  proof (cases "category t \<in> set object_prototype_keys")
    case True
    show ?thesis
    proof (cases "category t = ''__proto__''")
      case proto: True
      then have "category_step js_plus acc t = acc"
        using None True by (simp add: category_step_def Let_def)
      then show ?thesis
        using kinds True by simp
    next
      case False
      then have eq: "category_step js_plus acc t =
          AList.update (category t) (Text (category t) [amount t]) acc"
        using None True by (simp add: category_step_def Let_def)
      have "numbers (map snd (category_step js_plus acc t)) = numbers (map snd acc)"
        unfolding eq using numbers_update_new [OF None] by simp
      moreover have "\<forall>k v. map_of (category_step js_plus acc t) k = Some v \<longrightarrow>
          (k \<in> set object_prototype_keys \<longrightarrow> (\<exists>m as. v = Text m as)) \<and>
          (k \<notin> set object_prototype_keys \<longrightarrow> (\<exists>n. v = Number n \<and> n \<in> \<int>))"
        unfolding eq using kinds True by (intro kinds_update) simp_all
      ultimately show ?thesis
        using True by simp
    qed
  next
    case False
    have "\<bar>amount t\<bar> \<le> 2 ^ 53"
      using bound nonneg by linarith
    then have "add_number js_plus 0 (amount t) = Number (0 + amount t)"
      using exact whole by (intro add_number_exact) simp_all
    then have eq: "category_step js_plus acc t =
        AList.update (category t) (Number (amount t)) acc"
      using None False by (simp add: category_step_def Let_def)
    have "numbers (map snd (category_step js_plus acc t)) = numbers (map snd acc) @ [amount t]"
      unfolding eq using numbers_update_new [OF None] by simp
    moreover have "\<forall>k v. map_of (category_step js_plus acc t) k = Some v \<longrightarrow>
        (k \<in> set object_prototype_keys \<longrightarrow> (\<exists>m as. v = Text m as)) \<and>
        (k \<notin> set object_prototype_keys \<longrightarrow> (\<exists>n. v = Number n \<and> n \<in> \<int>))"
      unfolding eq using kinds False whole by (intro kinds_update) simp_all
    ultimately show ?thesis
      using False by simp
  qed
next
  case (Some w)
  show ?thesis
  proof (cases "category t \<in> set object_prototype_keys")
    case True
    then obtain m as where w: "w = Text m as"
      using kinds Some by blast
    have m: "map_of acc (category t) = Some (Text m as)"
      using Some w by simp
    then have eq: "category_step js_plus acc t =
        AList.update (category t) (Text m (as @ [amount t])) acc"
      by (simp add: category_step_def Let_def)
    have "numbers (map snd (category_step js_plus acc t)) = numbers (map snd acc)"
      unfolding eq using m by (rule numbers_update_text)
    moreover have "\<forall>k v. map_of (category_step js_plus acc t) k = Some v \<longrightarrow>
        (k \<in> set object_prototype_keys \<longrightarrow> (\<exists>m as. v = Text m as)) \<and>
        (k \<notin> set object_prototype_keys \<longrightarrow> (\<exists>n. v = Number n \<and> n \<in> \<int>))"
      unfolding eq using kinds True by (intro kinds_update) simp_all
    ultimately show ?thesis
      using True by simp
  next
    case False
    then obtain n where w: "w = Number n" and n: "n \<in> \<int>"
      using kinds Some by blast
    have m: "map_of acc (category t) = Some (Number n)"
      using Some w by simp
    have le: "\<bar>n\<bar> \<le> sum_list (map abs (numbers (map snd acc)))"
      using m by (rule number_le_abs_sum)
    then have "\<bar>n\<bar> + \<bar>amount t\<bar> \<le> 2 ^ 53"
      using bound by linarith
    then have "add_number js_plus n (amount t) = Number (n + amount t)"
      using exact n whole by (intro add_number_exact)
    then have eq: "category_step js_plus acc t =
        AList.update (category t) (Number (n + amount t)) acc"
      using m by (simp add: category_step_def Let_def)
    have s1: "sum_list (numbers (map snd (category_step js_plus acc t))) =
        sum_list (numbers (map snd acc)) + amount t"
      unfolding eq using numbers_update_number [OF m, of "\<lambda>x. x" "n + amount t"] by simp
    have "sum_list (map abs (numbers (map snd (category_step js_plus acc t)))) =
        sum_list (map abs (numbers (map snd acc))) - \<bar>n\<bar> + \<bar>n + amount t\<bar>"
      unfolding eq using numbers_update_number [OF m, of abs "n + amount t"] by simp
    then have s2: "sum_list (map abs (numbers (map snd (category_step js_plus acc t)))) \<le>
        sum_list (map abs (numbers (map snd acc))) + \<bar>amount t\<bar>"
      by linarith
    have "\<forall>k v. map_of (category_step js_plus acc t) k = Some v \<longrightarrow>
        (k \<in> set object_prototype_keys \<longrightarrow> (\<exists>m as. v = Text m as)) \<and>
        (k \<notin> set object_prototype_keys \<longrightarrow> (\<exists>n. v = Number n \<and> n \<in> \<int>))"
      unfolding eq using kinds False n whole by (intro kinds_update) simp_all
    then show ?thesis
      using s1 s2 False by simp
  qed
qed

lemma category_fold_sum:
  assumes exact: "exact_plus js_plus"
  shows "\<forall>k v. map_of acc k = Some v \<longrightarrow>
      (k \<in> set object_prototype_keys \<longrightarrow> (\<exists>m as. v = Text m as)) \<and>
      (k \<notin> set object_prototype_keys \<longrightarrow> (\<exists>n. v = Number n \<and> n \<in> \<int>)) \<Longrightarrow>
    \<forall>t\<in>set ts. amount t \<in> \<int> \<Longrightarrow>
    sum_list (map abs (numbers (map snd acc))) + sum_list (map (\<lambda>t. \<bar>amount t\<bar>) ts) \<le> 2 ^ 53 \<Longrightarrow>
    sum_list (numbers (map snd (fold (\<lambda>t acc. category_step js_plus acc t) ts acc))) =
      sum_list (numbers (map snd acc)) +
      sum_list (map amount (filter (\<lambda>t. category t \<notin> set object_prototype_keys) ts)) \<and>
    (\<forall>k v. map_of (fold (\<lambda>t acc. category_step js_plus acc t) ts acc) k = Some v \<longrightarrow>
      (k \<in> set object_prototype_keys \<longrightarrow> (\<exists>m as. v = Text m as)) \<and>
      (k \<notin> set object_prototype_keys \<longrightarrow> (\<exists>n. v = Number n \<and> n \<in> \<int>)))"
proof (induction ts arbitrary: acc)
  case Nil
  then show ?case by simp
next
  case (Cons t ts)
  have rest: "0 \<le> sum_list (map (\<lambda>t. \<bar>amount t\<bar>) ts)"
    by (rule sum_list_nonneg) auto
  have b: "sum_list (map abs (numbers (map snd acc))) + \<bar>amount t\<bar> \<le> 2 ^ 53"
    using Cons.prems(3) rest by simp
  have a: "amount t \<in> \<int>" and whole: "\<forall>t\<in>set ts. amount t \<in> \<int>"
    using Cons.prems(2) by simp_all
  note step = category_step_sum [OF Cons.prems(1) exact a b]
  have "sum_list (map abs (numbers (map snd (category_step js_plus acc t)))) +
      sum_list (map (\<lambda>t. \<bar>amount t\<bar>) ts) \<le> 2 ^ 53"
    using step Cons.prems(3) by simp
  from Cons.IH [OF conjunct1 [OF step] whole this] step
  show ?case by (simp add: add.assoc)
qed


text \<open>From the records of the store to the array that the page reduces.\<close>

lemma sum_list_filter_mset:
  fixes f :: "'a \<Rightarrow> real"
  assumes "mset xs = mset ys"
  shows "sum_list (map f (filter P xs)) = sum_list (map f (filter P ys))"
proof -
  have "mset (map f (filter P xs)) = mset (map f (filter P ys))"
    using assms by simp
  then show ?thesis
    by (metis sum_mset_sum_list)
qed

lemma abs_sum_filter_le:
  "sum_list (map (\<lambda>t. \<bar>amount t\<bar>) (filter P ts)) \<le> sum_list (map (\<lambda>t. \<bar>amount t\<bar>) ts)"
  by (induction ts) auto

lemma whole_amounts_filter: "whole_amounts ts \<Longrightarrow> whole_amounts (filter P ts)"
  using abs_sum_filter_le [of P ts] by (auto simp: whole_amounts_def)

lemma whole_amounts_list: "whole_amounts (rows s) \<Longrightarrow> whole_amounts (list_transactions s)"
proof -
  assume w: "whole_amounts (rows s)"
  have m: "mset (list_transactions s) = mset (rows s)"
    by (simp add: list_transactions_def mset_sort_by)
  have "sum_list (map (\<lambda>t. \<bar>amount t\<bar>) (filter (\<lambda>t. True) (list_transactions s))) =
      sum_list (map (\<lambda>t. \<bar>amount t\<bar>) (filter (\<lambda>t. True) (rows s)))"
    using m by (rule sum_list_filter_mset)
  moreover have "set (list_transactions s) = set (rows s)"
    by (simp add: list_transactions_def set_sort_by)
  ultimately show ?thesis
    using w by (simp add: whole_amounts_def)
qed

lemma categoryData_lookup:
  assumes "exact_plus js_plus" "whole_amounts txs" "c \<notin> set object_prototype_keys"
  shows "map_of (categoryData js_plus txs) c =
    (if \<exists>t\<in>set txs. type t = ''expense'' \<and> category t = c
     then Some (Number (sum_list (map amount
            (filter (\<lambda>t. type t = ''expense'' \<and> category t = c) txs))))
     else None)"
proof -
  have w: "whole_amounts (filter (\<lambda>t. type t = ''expense'') txs)"
    using assms(2) by (rule whole_amounts_filter)
  have "map_of (fold (\<lambda>t acc. category_step js_plus acc t)
      (filter (\<lambda>t. type t = ''expense'') txs) []) c =
    (if \<exists>t\<in>set (filter (\<lambda>t. type t = ''expense'') txs). category t = c
     then Some (Number (sum_list (map amount
            (filter (\<lambda>t. category t = c) (filter (\<lambda>t. type t = ''expense'') txs)))))
     else None)"
    using w by (intro category_fold_absent [OF assms(1,3)]) (simp_all add: whole_amounts_def)
  then show ?thesis
    by (auto simp: categoryData_def)
qed

lemma categoryData_distinct: "distinct (map fst (categoryData js_plus txs))"
  by (simp add: categoryData_def category_fold_distinct)

lemma categoryData_sum:
  assumes "exact_plus js_plus" "whole_amounts txs"
  shows "sum_list (numbers (map snd (categoryData js_plus txs))) =
     sum_list (map amount
       (filter (\<lambda>t. type t = ''expense'' \<and> category t \<notin> set object_prototype_keys) txs)) \<and>
    (\<forall>k v. map_of (categoryData js_plus txs) k = Some v \<longrightarrow>
      (k \<in> set object_prototype_keys \<longrightarrow> (\<exists>m as. v = Text m as)) \<and>
      (k \<notin> set object_prototype_keys \<longrightarrow> (\<exists>n. v = Number n \<and> n \<in> \<int>)))"
proof -
  have w: "whole_amounts (filter (\<lambda>t. type t = ''expense'') txs)"
    using assms(2) by (rule whole_amounts_filter)
  have k0: "\<forall>k v. map_of ([] :: (string \<times> jsvalue) list) k = Some v \<longrightarrow>
      (k \<in> set object_prototype_keys \<longrightarrow> (\<exists>m as. v = Text m as)) \<and>
      (k \<notin> set object_prototype_keys \<longrightarrow> (\<exists>n. v = Number n \<and> n \<in> \<int>))"
    by simp
  have w1: "\<forall>t\<in>set (filter (\<lambda>t. type t = ''expense'') txs). amount t \<in> \<int>"
    using w by (simp add: whole_amounts_def)
  have w2: "sum_list (map abs (numbers (map snd ([] :: (string \<times> jsvalue) list)))) +
      sum_list (map (\<lambda>t. \<bar>amount t\<bar>) (filter (\<lambda>t. type t = ''expense'') txs)) \<le> 2 ^ 53"
    using w by (simp add: whole_amounts_def)
  from category_fold_sum [OF assms(1) k0 w1 w2]
  show ?thesis
    by (simp add: categoryData_def)
qed

lemma categoryData_numbers:
  assumes "exact_plus js_plus" "whole_amounts txs"
    and "\<forall>t\<in>set txs. type t = ''expense'' \<longrightarrow> category t \<notin> set object_prototype_keys"
  shows "\<forall>v\<in>set (map snd (categoryData js_plus txs)). \<exists>n. v = Number n"
proof
  fix v
  assume "v \<in> set (map snd (categoryData js_plus txs))"
  then obtain k where kv: "(k, v) \<in> set (categoryData js_plus txs)" by auto
  then have m: "map_of (categoryData js_plus txs) k = Some v"
    using categoryData_distinct by (simp add: map_of_is_SomeI)
  have "k \<notin> set object_prototype_keys"
  proof
    assume "k \<in> set object_prototype_keys"
    then have "\<forall>t\<in>set (filter (\<lambda>t. type t = ''expense'') txs). category t \<noteq> k"
      using assms(3) by auto
    then have "map_of (categoryData js_plus txs) k = None"
      unfolding categoryData_def by (simp add: category_fold_untouched)
    with m show False by simp
  qed
  then show "\<exists>n. v = Number n"
    using categoryData_sum [OF assms(1,2)] m by blast
qed


text \<open>
  C6, as the code has it. The breakdown of the listing has one entry per key, and a
  category without an expense record is absent. Take a store in which the amounts are
  whole numbers whose absolute values add up to no more than \<open>2 ^ 53\<close>, so that no
  addition of doubles rounds. Then a category that is not a name inherited from
  \<open>Object.prototype\<close> and occurs on an expense record is mapped to the sum of \<open>amount\<close>
  over the expense records of exactly that category. When moreover no expense record has
  an inherited name as its category, every value is a number and the values add up to
  the expense amounts, which is \<open>total_expense\<close> when the store is not empty.
\<close>

theorem category_breakdown:
  "(exact_plus js_plus \<and> whole_amounts (rows s) \<and> c \<notin> set object_prototype_keys \<longrightarrow>
      map_of (categoryData js_plus (list_transactions s)) c =
        (if \<exists>r\<in>set (rows s). type r = ''expense'' \<and> category r = c
         then Some (Number (sum_list (map amount
                (filter (\<lambda>r. type r = ''expense'' \<and> category r = c) (rows s)))))
         else None)) \<and>
   ((\<forall>r\<in>set (rows s). type r = ''expense'' \<longrightarrow> category r \<noteq> c) \<longrightarrow>
      map_of (categoryData js_plus (list_transactions s)) c = None) \<and>
   distinct (map fst (categoryData js_plus (list_transactions s))) \<and>
   (exact_plus js_plus \<and> whole_amounts (rows s) \<and>
    (\<forall>r\<in>set (rows s). type r = ''expense'' \<longrightarrow> category r \<notin> set object_prototype_keys) \<longrightarrow>
      (\<forall>v\<in>set (map snd (categoryData js_plus (list_transactions s))). \<exists>n. v = Number n) \<and>
      sum_list (numbers (map snd (categoryData js_plus (list_transactions s)))) =
        sum_list (map amount (filter (\<lambda>r. type r = ''expense'') (rows s))) \<and>
      (exact_sum sqlite_sum \<and> rows s \<noteq> [] \<longrightarrow>
         total_expense (get_stats sqlite_sum s) =
           Some (sum_list (numbers (map snd (categoryData js_plus (list_transactions s)))))))"
proof -
  have m: "mset (list_transactions s) = mset (rows s)"
    by (simp add: list_transactions_def mset_sort_by)
  have st: "set (list_transactions s) = set (rows s)"
    by (simp add: list_transactions_def set_sort_by)
  have lookup: "map_of (categoryData js_plus (list_transactions s)) c =
        (if \<exists>r\<in>set (rows s). type r = ''expense'' \<and> category r = c
         then Some (Number (sum_list (map amount
                (filter (\<lambda>r. type r = ''expense'' \<and> category r = c) (rows s)))))
         else None)"
    if "exact_plus js_plus" "whole_amounts (rows s)" "c \<notin> set object_prototype_keys"
    using categoryData_lookup [OF that(1) whole_amounts_list [OF that(2)] that(3)]
      sum_list_filter_mset [OF m, of amount "\<lambda>r. type r = ''expense'' \<and> category r = c"]
    by (simp add: st)
  have absent: "map_of (categoryData js_plus (list_transactions s)) c = None"
    if "\<forall>r\<in>set (rows s). type r = ''expense'' \<longrightarrow> category r \<noteq> c"
  proof -
    have "\<forall>t\<in>set (filter (\<lambda>t. type t = ''expense'') (list_transactions s)). category t \<noteq> c"
      using that by (simp add: st)
    then show ?thesis
      unfolding categoryData_def by (simp add: category_fold_untouched)
  qed
  have rest: "(\<forall>v\<in>set (map snd (categoryData js_plus (list_transactions s))). \<exists>n. v = Number n) \<and>
      sum_list (numbers (map snd (categoryData js_plus (list_transactions s)))) =
        sum_list (map amount (filter (\<lambda>r. type r = ''expense'') (rows s))) \<and>
      (exact_sum sqlite_sum \<and> rows s \<noteq> [] \<longrightarrow>
         total_expense (get_stats sqlite_sum s) =
           Some (sum_list (numbers (map snd (categoryData js_plus (list_transactions s))))))"
    if e: "exact_plus js_plus" and w: "whole_amounts (rows s)"
      and h: "\<forall>r\<in>set (rows s). type r = ''expense'' \<longrightarrow>
        category r \<notin> set object_prototype_keys"
  proof -
    note wl = whole_amounts_list [OF w]
    have n: "\<forall>v\<in>set (map snd (categoryData js_plus (list_transactions s))). \<exists>n. v = Number n"
      using h by (intro categoryData_numbers [OF e wl]) (simp add: st)
    have "filter (\<lambda>t. type t = ''expense'' \<and> category t \<notin> set object_prototype_keys)
        (list_transactions s) = filter (\<lambda>t. type t = ''expense'') (list_transactions s)"
      using h by (intro filter_cong) (auto simp: st)
    then have "sum_list (numbers (map snd (categoryData js_plus (list_transactions s)))) =
        sum_list (map amount (filter (\<lambda>r. type r = ''expense'') (list_transactions s)))"
      using categoryData_sum [OF e wl] by simp
    then have eq: "sum_list (numbers (map snd (categoryData js_plus (list_transactions s)))) =
        sum_list (map amount (filter (\<lambda>r. type r = ''expense'') (rows s)))"
      using sum_list_filter_mset [OF m, of amount "\<lambda>r. type r = ''expense''"] by simp
    have "total_expense (get_stats sqlite_sum s) =
        Some (sum_list (numbers (map snd (categoryData js_plus (list_transactions s)))))"
      if "exact_sum sqlite_sum" "rows s \<noteq> []"
      using exact_sum_case [OF that(1) w that(2), of "\<lambda>r. type r = ''expense''"] that(2) eq
      by (simp add: get_stats_def sql_sum_def)
    with n eq show ?thesis by blast
  qed
  show ?thesis
    using lookup absent categoryData_distinct rest by blast
qed

lemma list_store3:
  "list_transactions store3 =
     [\<lparr>txn_id = 3, amount = - 5, type = ''expense'', category = ''food'',
        description = None, date = ''2024-01-03'',
        created_at = ''2024-01-03 10:00:00''\<rparr>,
      \<lparr>txn_id = 2, amount = 1000, type = ''income'', category = ''salary'',
        description = None, date = ''2024-01-02'',
        created_at = ''2024-01-02 09:00:00''\<rparr>,
      \<lparr>txn_id = 1, amount = 50, type = ''expense'', category = ''food'',
        description = Some ''lunch'', date = ''2024-01-01'',
        created_at = ''2024-01-01 08:00:00''\<rparr>]"
  by (simp add: list_transactions_def sort_by_def store3_eq order_by_def)

lemma whole_store3: "whole_amounts (rows store3)"
  by (simp add: whole_amounts_def store3_eq)

theorem category_breakdown_witness:
  "exact_plus plus_exactly \<and> exact_sum sum_exactly \<and> whole_amounts (rows store3) \<and>
   ''food'' \<notin> set object_prototype_keys \<and>
   map_of (categoryData plus_exactly (list_transactions store3)) ''food'' = Some (Number 45) \<and>
   categoryData plus_exactly (list_transactions store3) = [(''food'', Number 45)] \<and>
   map_of (categoryData plus_exactly (list_transactions store3)) ''rent'' = None \<and>
   rows store3 \<noteq> [] \<and> total_expense (get_stats sum_exactly store3) = Some 45"
proof -
  have f: "''food'' \<notin> set object_prototype_keys"
    by (simp add: object_prototype_keys_def)
  have h: "\<forall>r\<in>set (rows store3). type r = ''expense'' \<longrightarrow>
      category r \<notin> set object_prototype_keys"
    by (simp add: store3_eq object_prototype_keys_def)
  have c: "categoryData plus_exactly (list_transactions store3) = [(''food'', Number 45)]"
    by (simp add: list_store3 categoryData_def category_step_def object_prototype_keys_def
        add_number_def plus_exactly_def)
  have r: "rows store3 \<noteq> []"
    by (simp add: store3_eq)
  have a: "\<forall>r\<in>set (rows store3). type r = ''expense'' \<longrightarrow> category r \<noteq> ''rent''"
    by (simp add: store3_eq)
  from category_breakdown [of plus_exactly store3 "''food''" sum_exactly]
    category_breakdown [of plus_exactly store3 "''rent''" sum_exactly]
    exact_plus_exactly exact_sum_exactly whole_store3 f h c r a
  show ?thesis by simp
qed

text \<open>
  The claim of C6 fails in two places. On the empty store the breakdown is empty, so its
  values add up to 0, while \<open>total_expense\<close> is \<open>null\<close>. And an expense record of the
  category \<open>__proto__\<close> has no entry in the breakdown.
\<close>

theorem category_breakdown_counterexample:
  "categoryData plus_exactly (list_transactions empty_store) = [] \<and>
   total_expense (get_stats sum_exactly empty_store) = None \<and>
   map (\<lambda>r. (type r, category r, amount r)) (rows store4) = [(''expense'', ''__proto__'', 7)] \<and>
   categoryData plus_exactly (list_transactions store4) = [] \<and>
   total_expense (get_stats sum_exactly store4) = Some 7"
  by (simp add: list_transactions_def sort_by_def categoryData_def category_step_def
      object_prototype_keys_def empty_store_def store4_eq get_stats_def sql_sum_def
      sum_exactly_def)

section \<open>The daily groups\<close>
























end
